theory Spec2Isabelle
  imports Complex_Main "HOL-Library.Word" "HOL-Library.Code_Target_Nat"
begin

section \<open>Python values used by \<open>postgresql/types/io/lib.py\<close>\<close>

text \<open>
  A \<open>bytes\<close> object is a list of 8-bit words, a Python integer is an \<open>int\<close>.
  Every exception the module can raise is a value of \<open>error\<close>; a function that may
  raise returns \<open>error + 'a\<close> with \<open>Inl\<close> for the exception.  The number that the
  source formats into two of its messages is left out of the message text.
\<close>

type_synonym byte = "8 word"

datatype error =
    StructError
  | ValueError string
  | TypeError
  | OverflowError
  | ZeroDivisionError

definition bind_err :: "error + 'a \<Rightarrow> ('a \<Rightarrow> error + 'b) \<Rightarrow> error + 'b" where
  "bind_err r f = (case r of Inl e \<Rightarrow> Inl e | Inr v \<Rightarrow> f v)"

subsection \<open>Slices\<close>

text \<open>
  \<open>xs[i:j]\<close> never raises: a negative bound counts from the end, and both bounds are
  clamped to \<open>0 .. len(xs)\<close>.
\<close>

definition py_bound :: "nat \<Rightarrow> int \<Rightarrow> nat" where
  "py_bound n i = (if i < 0 then nat (max 0 (i + int n)) else min (nat i) n)"

definition py_slice :: "'a list \<Rightarrow> int \<Rightarrow> int \<Rightarrow> 'a list" where
  "py_slice xs i j =
     (let a = py_bound (length xs) i; b = py_bound (length xs) j
      in take (b - a) (drop a xs))"

definition py_slice_from :: "'a list \<Rightarrow> int \<Rightarrow> 'a list" where
  "py_slice_from xs i = drop (py_bound (length xs) i) xs"

subsection \<open>Big-endian integers\<close>

fun be_bytes :: "nat \<Rightarrow> nat \<Rightarrow> byte list" where
  "be_bytes 0 v = []"
| "be_bytes (Suc n) v = be_bytes n (v div 256) @ [of_nat (v mod 256)]"

definition be_val :: "byte list \<Rightarrow> nat" where
  "be_val bs = foldl (\<lambda>a b. a * 256 + unat b) 0 bs"

definition signed_of :: "nat \<Rightarrow> nat \<Rightarrow> int" where
  "signed_of bits v = (if v < 2 ^ (bits - 1) then int v else int v - 2 ^ bits)"

text \<open>
  Modelled from the spec: the module \<open>postgresql/python/structlib.py\<close> is not among the
  sources. The spec calls its functions the primitive width packers, "fixed-size
  big-endian integer/float encoders (16/32/64-bit signed and unsigned integers \<dots>)";
  they are Python's \<open>struct\<close> formats \<open>!l\<close> and \<open>!L\<close>. Packing a number outside the
  format's range raises \<open>struct.error\<close>, and so does unpacking from fewer bytes than
  the format needs.
\<close>

definition long_pack :: "int \<Rightarrow> error + byte list" where
  "long_pack x =
     (if - (2 ^ 31) \<le> x \<and> x < 2 ^ 31 then Inr (be_bytes 4 (nat (x mod 2 ^ 32)))
      else Inl StructError)"

definition long_unpack :: "byte list \<Rightarrow> error + int" where
  "long_unpack bs =
     (if length bs < 4 then Inl StructError
      else Inr (signed_of 32 (be_val (take 4 bs))))"

definition ulong_pack :: "int \<Rightarrow> error + byte list" where
  "ulong_pack x =
     (if 0 \<le> x \<and> x < 2 ^ 32 then Inr (be_bytes 4 (nat x)) else Inl StructError)"

definition ulong_unpack :: "byte list \<Rightarrow> error + int" where
  "ulong_unpack bs =
     (if length bs < 4 then Inl StructError else Inr (int (be_val (take 4 bs))))"

abbreviation oid_pack :: "int \<Rightarrow> error + byte list" where
  "oid_pack \<equiv> ulong_pack"

abbreviation oid_unpack :: "byte list \<Rightarrow> error + int" where
  "oid_unpack \<equiv> ulong_unpack"

definition null_sequence :: "byte list" where
  "null_sequence = [0xFF, 0xFF, 0xFF, 0xFF]"

section \<open>The network codec\<close>

text \<open>
  \<open>family, mask, is_cidr, size = data[:4]\<close> raises \<open>ValueError\<close> when the slice has
  fewer than four items; the items of a \<open>bytes\<close> object are integers.
\<close>

definition net_unpack :: "byte list \<Rightarrow> error + (int \<times> int \<times> byte list)" where
  "net_unpack data =
     (case py_slice data 0 4 of
        [family, mask', is_cidr, size'] \<Rightarrow>
          (let rd = py_slice_from data 4
           in if int (length rd) \<noteq> uint size'
              then Inl (ValueError ''invalid size parameter'')
              else Inr (uint family, uint mask', rd))
      | _ \<Rightarrow> Inl (ValueError ''not enough values to unpack''))"

section \<open>The record codec\<close>

text \<open>
  A generator is modelled by its run: the items it yields, in order, and how it ends,
  \<open>None\<close> when it finishes and \<open>Some e\<close> when it raises \<open>e\<close>.  \<open>consume\<close> is
  Python's \<open>list(g)\<close>: it raises what the generator raises and otherwise returns
  the items.
\<close>

type_synonym 'a run = "'a list \<times> error option"

definition yield :: "'a \<Rightarrow> 'a run \<Rightarrow> 'a run" where
  "yield v r = (v # fst r, snd r)"

definition consume :: "'a run \<Rightarrow> error + 'a list" where
  "consume r = (case snd r of None \<Rightarrow> Inr (fst r) | Some e \<Rightarrow> Inl e)"

text \<open>
  One item of the list comprehension of \<open>record_pack\<close>:
  \<open>oid_pack(x) + (y is None and null_sequence or (long_pack(len(y)) + y))\<close>.
\<close>

definition field_pack :: "int \<times> byte list option \<Rightarrow> error + byte list" where
  "field_pack f =
     (case f of (x, y) \<Rightarrow>
        bind_err (oid_pack x) (\<lambda>t.
          case y of
            None \<Rightarrow> Inr (t @ null_sequence)
          | Some b \<Rightarrow> bind_err (long_pack (int (length b))) (\<lambda>l. Inr (t @ (l @ b)))))"

fun fields_pack :: "(int \<times> byte list option) list \<Rightarrow> error + byte list" where
  "fields_pack [] = Inr []"
| "fields_pack (f # fs) =
     bind_err (field_pack f) (\<lambda>b. bind_err (fields_pack fs) (\<lambda>bs. Inr (b @ bs)))"

definition record_pack :: "(int \<times> byte list option) list \<Rightarrow> error + byte list" where
  "record_pack seq =
     bind_err (long_pack (int (length seq))) (\<lambda>h.
       bind_err (fields_pack seq) (\<lambda>b. Inr (h @ b)))"

text \<open>
  The \<open>for x in range(columns)\<close> loop of \<open>record_unpack\<close>, with the number of
  iterations left.  It returns the fields yielded and either the exception raised or the
  offset reached.
\<close>

fun record_fields ::
  "byte list \<Rightarrow> nat \<Rightarrow> int \<Rightarrow> (int \<times> byte list option) list \<times> (error + int)" where
  "record_fields data 0 offset = ([], Inr offset)"
| "record_fields data (Suc n) offset =
     (case oid_unpack (py_slice data offset (offset + 4)) of
        Inl e \<Rightarrow> ([], Inl e)
      | Inr typid \<Rightarrow>
          (let offset = offset + 4 in
           if py_slice data offset (offset + 4) = null_sequence
           then (let r = record_fields data n (offset + 4)
                 in ((typid, None) # fst r, snd r))
           else (case long_unpack (py_slice data offset (offset + 4)) of
                   Inl e \<Rightarrow> ([], Inl e)
                 | Inr size' \<Rightarrow>
                     (let offset = offset + 4;
                          att = py_slice data offset (offset + size')
                      in if size' < - 1 \<or> int (length att) \<noteq> size'
                         then ([], Inl (ValueError ''insufficient data left in message''))
                         else (let r = record_fields data n (offset + size')
                               in ((typid, Some att) # fst r, snd r))))))"

definition record_unpack :: "byte list \<Rightarrow> (int \<times> byte list option) run" where
  "record_unpack data =
     (case long_unpack (py_slice data 0 4) of
        Inl e \<Rightarrow> ([], Some e)
      | Inr columns \<Rightarrow>
          (let r = record_fields data (nat columns) 4 in
           case snd r of
             Inl e \<Rightarrow> (fst r, Some e)
           | Inr offset \<Rightarrow>
               if int (length data) - offset \<noteq> 0
               then (fst r, Some (ValueError ''extra data, %d octets, at end of record''))
               else (fst r, None)))"

section \<open>The array codec\<close>

text \<open>
  Modelled from the spec: \<open>llL_unpack\<close> is another function of the missing
  \<open>structlib\<close>, the format \<open>!llL\<close> read from the start of a buffer that may be longer
  ("reads the fixed 12-byte header").
\<close>

definition llL_unpack :: "byte list \<Rightarrow> error + (int \<times> int \<times> int)" where
  "llL_unpack data =
     (if length data < 12 then Inl StructError
      else Inr (signed_of 32 (be_val (take 4 data)),
                signed_of 32 (be_val (take 4 (drop 4 data))),
                int (be_val (take 4 (drop 8 data)))))"

text \<open>
  \<open>struct.unpack_from("!%dl" % n, data, off)\<close> for \<open>0 \<le> n\<close> and \<open>off \<le> len(data)\<close>:
  it raises \<open>struct.error\<close> when fewer than \<open>4 * n\<close> bytes follow the offset.
\<close>

definition unpack_from_longs :: "int \<Rightarrow> byte list \<Rightarrow> nat \<Rightarrow> error + int list" where
  "unpack_from_longs n data off =
     (if int (length data) - int off < 4 * n then Inl StructError
      else Inr (map (\<lambda>k. signed_of 32 (be_val (take 4 (drop (off + 4 * k) data))))
                  [0 ..< nat n]))"

text \<open>
  The \<open>while\<close> loop of \<open>elements_unpack\<close> need not end (a declared size of \<open>-4\<close>
  brings the offset back to where it was), so the run of the generator takes fuel, one
  unit for each test of the loop condition, and is \<open>None\<close> when the fuel runs out.
\<close>

fun elements_unpack :: "nat \<Rightarrow> byte list \<Rightarrow> int \<Rightarrow> byte list option run option" where
  "elements_unpack 0 data offset = None"
| "elements_unpack (Suc fuel) data offset =
     (if offset < int (length data)
      then (let lend = py_slice data offset (offset + 4);
                offset = offset + 4
            in if lend = null_sequence
               then map_option (yield None) (elements_unpack fuel data offset)
               else (case long_unpack lend of
                       Inl e \<Rightarrow> Some ([], Some e)
                     | Inr sizeof_el \<Rightarrow>
                         map_option (yield (Some (py_slice data offset (offset + sizeof_el))))
                           (elements_unpack fuel data (offset + sizeof_el))))
      else Some ([], None))"

text \<open>
  \<open>array_unpack\<close> returns the generator unstarted: the arguments of the call
  \<open>elements_unpack(data, end)\<close> stand for it.
\<close>

definition array_unpack ::
  "byte list \<Rightarrow> error + (int \<times> int \<times> int list \<times> (byte list \<times> int))" where
  "array_unpack data =
     bind_err (llL_unpack data) (\<lambda>(ndim, flags, typid).
       if ndim < 0 then Inl (ValueError ''invalid number of dimensions: %d'')
       else (let end' = 4 * 2 * ndim + 12 in
             bind_err (unpack_from_longs (2 * ndim) data 12) (\<lambda>dlb.
               Inr (flags, typid, dlb, (data, end')))))"

section \<open>Paths and fixed vectors\<close>

text \<open>
  A Python \<open>float\<close> is an IEEE 754 binary64 number; it is modelled by its 64 bits, and
  the format \<open>d\<close> writes these bits.
\<close>

type_synonym double = "64 word"

definition double_bytes :: "double \<Rightarrow> byte list" where
  "double_bytes d = be_bytes 8 (unat d)"

definition path_pack :: "double list \<Rightarrow> error + byte list" where
  "path_pack data =
     bind_err (long_pack (int (length data))) (\<lambda>h.
       Inr (h @ concat (map double_bytes data)))"

text \<open>
  \<open>struct.unpack\<close> wants the buffer to have exactly the size of the format, and a
  negative count does not make a format.
\<close>

definition path_unpack :: "byte list \<Rightarrow> error + double list" where
  "path_unpack data =
     bind_err (long_unpack (py_slice data 0 4)) (\<lambda>n.
       if n < 0 \<or> int (length data) \<noteq> 4 + 8 * n then Inl StructError
       else Inr (map (\<lambda>k. of_nat (be_val (take 8 (drop (4 + 8 * k) data)))) [0 ..< nat n]))"

text \<open>\<open>struct.pack("!%dL" % len(seq), *seq)\<close>.\<close>

fun pack_ulongs :: "int list \<Rightarrow> error + byte list" where
  "pack_ulongs [] = Inr []"
| "pack_ulongs (x # xs) =
     bind_err (ulong_pack x) (\<lambda>b. bind_err (pack_ulongs xs) (\<lambda>bs. Inr (b @ bs)))"

text \<open>
  \<open>bytes.ljust(width, fillbyte)\<close> takes a \<open>bytes\<close> object of length one to fill with
  and raises \<open>TypeError\<close> for anything else, a \<open>str\<close> among them.
\<close>

datatype pyobj = PyStr string | PyBytes "byte list"

definition bytes_ljust :: "byte list \<Rightarrow> nat \<Rightarrow> pyobj \<Rightarrow> error + byte list" where
  "bytes_ljust b width fillbyte =
     (case fillbyte of
        PyBytes [c] \<Rightarrow> Inr (b @ replicate (width - length b) c)
      | _ \<Rightarrow> Inl TypeError)"

definition oidvector_pack :: "int list \<Rightarrow> error + byte list" where
  "oidvector_pack seq =
     bind_err (pack_ulongs seq) (\<lambda>b. bytes_ljust b 128 (PyStr [CHR 0x00]))"

section \<open>The temporal codecs\<close>

subsection \<open>Python floats\<close>





























subsection \<open>Intervals without a day component\<close>







section \<open>Properties of the primitive packers\<close>

lemma length_be_bytes [simp]: "length (be_bytes n v) = n"
  by (induction n arbitrary: v) simp_all

lemma be_val_snoc: "be_val (bs @ [b]) = be_val bs * 256 + unat b"
  by (simp add: be_val_def)

lemma be_val_be_bytes: "be_val (be_bytes n v) = v mod 256 ^ n"
proof (induction n arbitrary: v)
  case 0
  show ?case by (simp add: be_val_def)
next
  case (Suc n)
  have "unat (of_nat (v mod 256) :: byte) = v mod 256"
    by (simp add: unat_of_nat)
  then have "be_val (be_bytes (Suc n) v) = (v div 256 mod 256 ^ n) * 256 + v mod 256"
    by (simp add: be_val_snoc Suc.IH)
  also have "\<dots> = v mod 256 ^ Suc n"
    by (simp add: mod_mult2_eq)
  finally show ?case .
qed

lemma be_val_be_bytes4: "v < 4294967296 \<Longrightarrow> be_val (be_bytes 4 v) = v"
  by (simp only: be_val_be_bytes) simp

lemma signed_of_32_nonneg: "v < 2147483648 \<Longrightarrow> signed_of 32 v = int v"
  by (simp add: signed_of_def)

lemma signed_of_32_neg: "2147483648 \<le> v \<Longrightarrow> signed_of 32 v = int v - 4294967296"
  by (simp add: signed_of_def)

lemma long_pack_Inr:
  "long_pack x = Inr h \<longleftrightarrow>
     - 2147483648 \<le> x \<and> x < 2147483648 \<and> h = be_bytes 4 (nat (x mod 4294967296))"
  by (auto simp add: long_pack_def)

lemma ulong_pack_Inr:
  "ulong_pack x = Inr h \<longleftrightarrow> 0 \<le> x \<and> x < 4294967296 \<and> h = be_bytes 4 (nat x)"
  by (auto simp add: ulong_pack_def)

lemma long_unpack_be_bytes:
  assumes "- 2147483648 \<le> x" and "x < 2147483648"
  shows "long_unpack (be_bytes 4 (nat (x mod 4294967296)) @ rest) = Inr x"
proof -
  let ?v = "nat (x mod 4294967296)"
  have lt: "?v < 4294967296"
    by (simp add: nat_less_iff)
  have d: "long_unpack (be_bytes 4 ?v @ rest) = Inr (signed_of 32 ?v)"
    using lt by (simp add: long_unpack_def be_val_be_bytes4)
  show ?thesis
  proof (cases "0 \<le> x")
    case True
    with assms have "x mod 4294967296 = x"
      by simp
    with True assms d show ?thesis
      by (simp add: signed_of_32_nonneg)
  next
    case False
    have "x mod 4294967296 = (x + 4294967296) mod 4294967296"
      by simp
    also have "\<dots> = x + 4294967296"
      using False assms by (intro mod_pos_pos_trivial) simp_all
    finally have e: "x mod 4294967296 = x + 4294967296" .
    have "2147483648 \<le> ?v"
      using assms False by (simp add: e)
    then have "signed_of 32 ?v = int ?v - 4294967296"
      by (rule signed_of_32_neg)
    with d assms show ?thesis
      by (simp add: e)
  qed
qed

lemma ulong_unpack_be_bytes:
  assumes "0 \<le> x" and "x < 4294967296"
  shows "ulong_unpack (be_bytes 4 (nat x) @ rest) = Inr x"
proof -
  have "nat x < 4294967296"
    using assms by simp
  then show ?thesis
    using assms by (simp add: ulong_unpack_def be_val_be_bytes4)
qed

lemma be_bytes_numeral:
  "be_bytes (numeral k) v = be_bytes (pred_numeral k) (v div 256) @ [of_nat (v mod 256)]"
  by (metis be_bytes.simps(2) numeral_eq_Suc)

subsection \<open>Slices of concatenated buffers\<close>

lemma py_bound_int: "py_bound n (int a) = min a n"
  by (simp add: py_bound_def)

lemma py_bound_int_add: "py_bound n (int a + int k) = min (a + k) n"
  by (simp add: py_bound_def nat_add_distrib)

lemma py_slice_short:
  "py_slice (pre @ rest) (int (length pre)) (int (length pre) + int k) = take k rest"
  by (simp add: py_slice_def py_bound_int py_bound_int_add Let_def min_def)

lemma py_slice_app:
  "py_slice (pre @ mid @ post) (int (length pre)) (int (length pre) + int (length mid)) = mid"
  by (simp only: py_slice_short) simp

lemma py_slice_at:
  assumes "data = pre @ mid @ post" and "i = int (length pre)" and "j = i + int (length mid)"
  shows "py_slice data i j = mid"
  using assms by (simp only: py_slice_app)

subsection \<open>Packing and unpacking a signed prefix\<close>

lemma long_pack_length:
  assumes "long_pack x = Inr h"
  shows "length h = 4" and "long_unpack h = Inr x"
proof -
  from assms have b: "- 2147483648 \<le> x" "x < 2147483648"
    and h: "h = be_bytes 4 (nat (x mod 4294967296))"
    by (simp_all add: long_pack_Inr)
  from h show "length h = 4"
    by simp
  from long_unpack_be_bytes [OF b, of "[]"] h show "long_unpack h = Inr x"
    by simp
qed

section \<open>Properties of the network codec\<close>

lemma net_unpack_cons4:
  "net_unpack (a # b # c # d # rest) =
     (if int (length rest) \<noteq> uint d then Inl (ValueError ''invalid size parameter'')
      else Inr (uint a, uint b, rest))"
  by (simp add: net_unpack_def py_slice_def py_slice_from_def py_bound_def)

lemma list_ge4:
  assumes "4 \<le> length (xs :: 'a list)"
  obtains a b c d rest where "xs = a # b # c # d # rest"
proof -
  from assms obtain a t1 where 1: "xs = a # t1" by (cases xs) auto
  with assms obtain b t2 where 2: "t1 = b # t2" by (cases t1) auto
  with 1 assms obtain c t3 where 3: "t2 = c # t3" by (cases t2) auto
  with 1 2 assms obtain d t4 where 4: "t3 = d # t4" by (cases t3) auto
  from 1 2 3 4 that show thesis by blast
qed

text \<open>
  C6: on a buffer of at least four bytes \<open>net_unpack\<close> raises exactly when the fourth
  header byte differs from the number of bytes after the header, and otherwise returns
  the family, the mask and the bytes after the header.
\<close>

theorem net_unpack_size_check:
  assumes "4 \<le> length data"
  shows "(isl (net_unpack data) \<longleftrightarrow> uint (data ! 3) \<noteq> int (length data) - 4) \<and>
         (\<not> isl (net_unpack data) \<longrightarrow>
            net_unpack data = Inr (uint (data ! 0), uint (data ! 1), drop 4 data))"
proof -
  from assms obtain a b c d rest where "data = a # b # c # d # rest"
    by (rule list_ge4)
  then show ?thesis
    by (auto simp add: net_unpack_cons4)
qed

theorem net_unpack_size_check_witness:
  "4 \<le> length [2, 24, 1, 3, 10, 0, 7 :: byte] \<and>
   \<not> isl (net_unpack [2, 24, 1, 3, 10, 0, 7]) \<and>
   net_unpack [2, 24, 1, 3, 10, 0, 7] = Inr (2, 24, [10, 0, 7]) \<and>
   4 \<le> length [2, 24, 1, 4, 10, 0, 7 :: byte] \<and>
   isl (net_unpack [2, 24, 1, 4, 10, 0, 7])"
  using net_unpack_size_check [of "[2, 24, 1, 3, 10, 0, 7]"]
        net_unpack_size_check [of "[2, 24, 1, 4, 10, 0, 7]"]
  by simp

text \<open>
  C10: two buffers of at least four bytes that agree everywhere but at index 2, the
  \<open>is_cidr\<close> byte, give the same outcome of \<open>net_unpack\<close>, the same value or the
  same exception.
\<close>

theorem net_unpack_ignores_is_cidr:
  assumes "4 \<le> length data" and "length data' = length data"
    and "\<forall>i < length data. i \<noteq> 2 \<longrightarrow> data' ! i = data ! i"
  shows "net_unpack data' = net_unpack data"
proof -
  from assms(1) obtain a b c d rest where d: "data = a # b # c # d # rest"
    by (rule list_ge4)
  have "data' = data[2 := data' ! 2]"
    using assms by (auto simp add: list_eq_iff_nth_eq nth_list_update)
  with d obtain c' where "data' = a # b # c' # d # rest"
    by simp
  with d show ?thesis
    by (simp only: net_unpack_cons4)
qed

theorem net_unpack_ignores_is_cidr_witness:
  "4 \<le> length [2, 24, 1, 3, 10, 0, 7 :: byte] \<and>
   length [2, 24, 0, 3, 10, 0, 7 :: byte] = length [2, 24, 1, 3, 10, 0, 7 :: byte] \<and>
   net_unpack [2, 24, 0, 3, 10, 0, 7] = net_unpack [2, 24, 1, 3, 10, 0, 7]"
proof -
  have h: "\<forall>i < length [2, 24, 1, 3, 10, 0, 7 :: byte]. i \<noteq> 2 \<longrightarrow>
      [2, 24, 0, 3, 10, 0, 7 :: byte] ! i = [2, 24, 1, 3, 10, 0, 7] ! i"
    by (simp add: nth_Cons' )
  show ?thesis
    using h net_unpack_ignores_is_cidr [of "[2, 24, 1, 3, 10, 0, 7]" "[2, 24, 0, 3, 10, 0, 7]"]
    by simp
qed

section \<open>Properties of the fixed vectors and of paths\<close>

text \<open>
  C2: the claim is that \<open>oidvector_pack([1, 2, 3])\<close> returns 128 bytes.  The source
  gives \<open>bytes.ljust\<close> a \<open>str\<close> to pad with, the one-character string of code 0,
  where a \<open>bytes\<close> object is wanted: the call raises \<open>TypeError\<close>.
\<close>

theorem oidvector_pack_raises: "oidvector_pack [1, 2, 3] = Inl TypeError"
  by (simp add: oidvector_pack_def bind_err_def ulong_pack_def bytes_ljust_def be_bytes_numeral)

lemma oidvector_pack_always_raises: "isl (oidvector_pack seq)"
  by (simp add: oidvector_pack_def bind_err_def bytes_ljust_def split: sum.splits)

text \<open>
  C4: the claim is that the count written by \<open>path_pack\<close> for \<open>2 * n\<close> doubles is
  \<open>n\<close>.  It is the number of doubles: for two doubles, one point, the prefix is 2.
\<close>

theorem path_pack_prefix_counterexample:
  "length [0x3FF0000000000000, 0x4000000000000000 :: double] = 2 * 1 \<and>
   map_sum id (take 4) (path_pack [0x3FF0000000000000, 0x4000000000000000]) \<noteq> long_pack 1"
  by (simp add: path_pack_def long_pack_def bind_err_def be_bytes_numeral)

text \<open>
  C4, as amended: for a sequence of \<open>2 * n\<close> doubles with \<open>2 * n < 2 ^ 31\<close>,
  \<open>path_pack\<close> returns the four bytes that \<open>long_pack\<close> gives for \<open>2 * n\<close>, the
  number of doubles, followed by the doubles in big-endian order.
\<close>

theorem path_pack_prefix:
  assumes "length data = 2 * n" and "2 * n < 2 ^ 31"
  shows "path_pack data = Inr (be_bytes 4 (2 * n) @ concat (map double_bytes data)) \<and>
         long_pack (int (2 * n)) = Inr (be_bytes 4 (2 * n)) \<and>
         long_unpack (be_bytes 4 (2 * n)) = Inr (int (2 * n))"
proof -
  define x where "x = int (2 * n)"
  have b: "- 2147483648 \<le> x" "x < 2147483648"
    using assms(2) by (simp_all add: x_def)
  have "0 \<le> x"
    by (simp add: x_def)
  with b have "x mod 4294967296 = x"
    by simp
  then have m: "nat (x mod 4294967296) = 2 * n"
    by (simp add: x_def)
  from b have p: "long_pack x = Inr (be_bytes 4 (2 * n))"
    by (simp only: long_pack_Inr m)
  from long_unpack_be_bytes [OF b, of "[]"]
  have u: "long_unpack (be_bytes 4 (2 * n)) = Inr x"
    by (simp only: m append_Nil2)
  from p u assms(1) show ?thesis
    by (simp add: path_pack_def bind_err_def x_def)
qed

theorem path_pack_prefix_witness:
  "length [0x3FF0000000000000, 0x4000000000000000 :: double] = 2 * 1 \<and>
   (2 * 1 :: nat) < 2 ^ 31 \<and>
   path_pack [0x3FF0000000000000, 0x4000000000000000] =
     Inr ([0, 0, 0, 2] @ [0x3F, 0xF0, 0, 0, 0, 0, 0, 0] @ [0x40, 0, 0, 0, 0, 0, 0, 0])"
  using path_pack_prefix [of "[0x3FF0000000000000, 0x4000000000000000]" 1]
  by (simp add: double_bytes_def be_bytes_numeral)

text \<open>
  \<open>path_unpack\<close> reads the prefix as the number of doubles too: a sequence of fewer
  than \<open>2 ^ 31\<close> doubles comes back from \<open>path_unpack\<close> as it went into
  \<open>path_pack\<close>.
\<close>

lemma length_double_bytes: "length (double_bytes d) = 8"
  by (simp add: double_bytes_def)

lemma double_of_bytes: "of_nat (be_val (double_bytes d)) = d"
proof -
  have "unat d < 2 ^ 64"
    using unsigned_less [of d] by simp
  then have "unat d mod 256 ^ 8 = unat d"
    by simp
  then show ?thesis
    by (simp add: double_bytes_def be_val_be_bytes)
qed

lemma chunk_of_doubles:
  "k < length ds \<Longrightarrow>
   take 8 (drop (8 * k) (concat (map double_bytes ds))) = double_bytes (ds ! k)"
proof (induction ds arbitrary: k)
  case Nil
  then show ?case by simp
next
  case (Cons d ds)
  show ?case
  proof (cases k)
    case 0
    then show ?thesis by (simp add: length_double_bytes)
  next
    case (Suc j)
    with Cons.prems have "j < length ds" by simp
    from Cons.IH [OF this] Suc show ?thesis
      by (simp add: length_double_bytes)
  qed
qed

lemma length_doubles: "length (concat (map double_bytes ds)) = 8 * length ds"
  by (induction ds) (simp_all add: length_double_bytes)

lemma path_unpack_path_pack:
  assumes "length data < 2 ^ 31"
  shows "bind_err (path_pack data) path_unpack = Inr data"
proof -
  define x where "x = int (length data)"
  have b: "- 2147483648 \<le> x" "x < 2147483648"
    using assms by (simp_all add: x_def)
  then obtain h where h: "long_pack x = Inr h"
    by (simp add: long_pack_Inr)
  then have l: "length h = 4" and u: "long_unpack h = Inr x"
    by (rule long_pack_length)+
  define buf where "buf = h @ concat (map double_bytes data)"
  have s: "py_slice buf 0 4 = h"
    by (rule py_slice_at [where pre = "[]" and post = "concat (map double_bytes data)"])
      (simp_all add: l buf_def)
  have len: "int (length buf) = 4 + 8 * x"
    by (simp add: l length_doubles x_def buf_def)
  have m: "map (\<lambda>k. of_nat (be_val (take 8 (drop (4 + 8 * k) buf)))) [0 ..< nat x] = data"
  proof (rule nth_equalityI)
    show "length (map (\<lambda>k. of_nat (be_val (take 8 (drop (4 + 8 * k) buf))) :: double)
        [0 ..< nat x]) = length data"
      by (simp add: x_def)
  next
    fix i
    assume "i < length (map (\<lambda>k. of_nat (be_val (take 8 (drop (4 + 8 * k) buf))) :: double)
        [0 ..< nat x])"
    then have i: "i < length data"
      by (simp add: x_def)
    have "drop (4 + 8 * i) buf = drop (8 * i) (concat (map double_bytes data))"
      by (simp add: l buf_def)
    with chunk_of_doubles [OF i]
    have "take 8 (drop (4 + 8 * i) buf) = double_bytes (data ! i)"
      by simp
    with i show "map (\<lambda>k. of_nat (be_val (take 8 (drop (4 + 8 * k) buf)))) [0 ..< nat x] ! i
        = data ! i"
      by (simp add: double_of_bytes x_def)
  qed
  have "0 \<le> x"
    by (simp add: x_def)
  then have "path_unpack buf = Inr data"
    by (simp add: path_unpack_def bind_err_def s u len m)
  with h show ?thesis
    by (simp add: path_pack_def bind_err_def x_def buf_def)
qed

section \<open>Properties of the array codec\<close>

lemma elements_unpack_more_fuel:
  "elements_unpack fuel data offset = Some r \<Longrightarrow>
   elements_unpack (fuel + k) data offset = Some r"
proof (induction fuel data offset arbitrary: r rule: elements_unpack.induct)
  case (1 data offset)
  then show ?case by simp
next
  case (2 fuel data offset)
  then show ?case
    by (auto simp add: Let_def split: if_splits sum.splits)
qed

text \<open>
  C3: the claim is that a declared element length beyond the end of the buffer makes the
  element sequence of \<open>array_unpack\<close> raise.  The buffer below declares five bytes
  where one is left: the sequence yields that one byte and ends without an exception.
\<close>

theorem elements_unpack_oversized_length:
  "array_unpack [0,0,0,0, 0,0,0,0, 0,0,0,23, 0,0,0,5, 0x41] =
     Inr (0, 23, [], ([0,0,0,0, 0,0,0,0, 0,0,0,23, 0,0,0,5, 0x41], 12)) \<and>
   elements_unpack (Suc (Suc 0)) [0,0,0,0, 0,0,0,0, 0,0,0,23, 0,0,0,5, 0x41] 12 =
     Some ([Some [0x41]], None)"
  by (simp add: array_unpack_def llL_unpack_def unpack_from_longs_def bind_err_def
      be_val_def signed_of_def py_slice_def py_bound_def null_sequence_def long_unpack_def
      yield_def)

text \<open>
  A declared length of \<open>-4\<close> raises nothing either: the offset comes back to the length
  prefix, and the sequence yields empty payloads without end.
\<close>

lemma elements_unpack_negative_length_loops:
  "elements_unpack fuel [0,0,0,0, 0,0,0,0, 0,0,0,23, 0xFF,0xFF,0xFF,0xFC] 12 = None"
proof (induction fuel)
  case 0
  show ?case by simp
next
  case (Suc fuel)
  then show ?case
    by (simp add: py_slice_def py_bound_def null_sequence_def long_unpack_def be_val_def
        signed_of_def)
qed

text \<open>
  C8: on a buffer of at least 12 bytes whose first big-endian signed 32-bit field is
  negative, \<open>array_unpack\<close> raises the \<open>ValueError\<close> of the dimension check, whatever
  follows the header: no bound is parsed before.
\<close>

theorem array_unpack_negative_ndim:
  assumes "12 \<le> length data" and "long_unpack (take 4 data) = Inr ndim" and "ndim < 0"
  shows "array_unpack data = Inl (ValueError ''invalid number of dimensions: %d'')"
  using assms
  by (auto simp add: array_unpack_def llL_unpack_def long_unpack_def bind_err_def
      split: if_splits)

theorem array_unpack_negative_ndim_witness:
  "12 \<le> length [0xFF,0xFF,0xFF,0xFE, 0,0,0,0, 0,0,0,23 :: byte] \<and>
   long_unpack (take 4 [0xFF,0xFF,0xFF,0xFE, 0,0,0,0, 0,0,0,23]) = Inr (- 2) \<and>
   (- 2 :: int) < 0 \<and>
   array_unpack [0xFF,0xFF,0xFF,0xFE, 0,0,0,0, 0,0,0,23] =
     Inl (ValueError ''invalid number of dimensions: %d'')"
proof -
  have h: "long_unpack (take 4 [0xFF,0xFF,0xFF,0xFE, 0,0,0,0, 0,0,0,23]) = Inr (- 2)"
    by (simp add: long_unpack_def be_val_def signed_of_def)
  show ?thesis
    using h array_unpack_negative_ndim [of "[0xFF,0xFF,0xFF,0xFE, 0,0,0,0, 0,0,0,23]" "- 2"]
    by simp
qed

text \<open>
  C9: the claim is that a header with dimension count 0 gives an element sequence that
  yields nothing.  The bytes after the header are decoded as elements whatever the
  dimension count is: here a null marker follows, and the sequence yields \<open>None\<close>.
\<close>

theorem array_unpack_zero_dims_counterexample:
  "llL_unpack [0,0,0,0, 0,0,0,0, 0,0,0,23, 0xFF,0xFF,0xFF,0xFF] = Inr (0, 0, 23) \<and>
   array_unpack [0,0,0,0, 0,0,0,0, 0,0,0,23, 0xFF,0xFF,0xFF,0xFF] =
     Inr (0, 23, [], ([0,0,0,0, 0,0,0,0, 0,0,0,23, 0xFF,0xFF,0xFF,0xFF], 12)) \<and>
   elements_unpack (Suc (Suc 0)) [0,0,0,0, 0,0,0,0, 0,0,0,23, 0xFF,0xFF,0xFF,0xFF] 12 =
     Some ([None], None)"
  by (simp add: array_unpack_def llL_unpack_def unpack_from_longs_def bind_err_def
      be_val_def signed_of_def py_slice_def py_bound_def null_sequence_def
      yield_def)

text \<open>
  C9, as amended: when the header declares dimension count 0, \<open>array_unpack\<close> succeeds
  and returns an empty bound sequence and the element sequence over the bytes after the
  12-byte header; when the buffer is the header alone, that sequence yields no element
  and raises nothing.
\<close>

theorem array_unpack_zero_dims:
  assumes "llL_unpack data = Inr (0, flags, typid)"
  shows "array_unpack data = Inr (flags, typid, [], (data, 12)) \<and>
         (length data = 12 \<longrightarrow> elements_unpack (Suc fuel) data 12 = Some ([], None))"
  using assms
  by (auto simp add: array_unpack_def unpack_from_longs_def bind_err_def llL_unpack_def
      split: if_splits)

theorem array_unpack_zero_dims_witness:
  "llL_unpack [0,0,0,0, 0,0,0,0, 0,0,0,23] = Inr (0, 0, 23) \<and>
   array_unpack [0,0,0,0, 0,0,0,0, 0,0,0,23] =
     Inr (0, 23, [], ([0,0,0,0, 0,0,0,0, 0,0,0,23], 12)) \<and>
   length [0,0,0,0, 0,0,0,0, 0,0,0,23 :: byte] = 12 \<and>
   elements_unpack (Suc 0) [0,0,0,0, 0,0,0,0, 0,0,0,23] 12 = Some ([], None)"
proof -
  have h: "llL_unpack [0,0,0,0, 0,0,0,0, 0,0,0,23] = Inr (0, 0, 23)"
    by (simp add: llL_unpack_def be_val_def signed_of_def)
  show ?thesis
    using h array_unpack_zero_dims [of "[0,0,0,0, 0,0,0,0, 0,0,0,23]" 0 23 0]
    by simp
qed

section \<open>Properties of the record codec\<close>

lemma be_bytes4_not_null:
  assumes "v < 2147483648"
  shows "be_bytes 4 v \<noteq> null_sequence"
proof
  assume "be_bytes 4 v = null_sequence"
  then have "be_val (be_bytes 4 v) = be_val null_sequence"
    by simp
  moreover have "be_val null_sequence = 4294967295"
    by (simp add: null_sequence_def be_val_def)
  moreover have "be_val (be_bytes 4 v) = v"
    using assms by (simp add: be_val_be_bytes4)
  ultimately show False
    using assms by simp
qed

lemma field_pack_None:
  "field_pack (x, None) = Inr enc \<longleftrightarrow>
     0 \<le> x \<and> x < 4294967296 \<and> enc = be_bytes 4 (nat x) @ null_sequence"
  by (auto simp add: field_pack_def bind_err_def ulong_pack_def)

lemma field_pack_Some:
  "field_pack (x, Some b) = Inr enc \<longleftrightarrow>
     0 \<le> x \<and> x < 4294967296 \<and> length b < 2147483648 \<and>
     enc = be_bytes 4 (nat x) @ be_bytes 4 (length b) @ b"
proof -
  have "nat (int (length b) mod 4294967296) = length b" if "length b < 2147483648"
    using that by simp
  then show ?thesis
    by (auto simp add: field_pack_def bind_err_def ulong_pack_def long_pack_def)
qed

lemma length_null_sequence: "length null_sequence = 4"
  by (simp add: null_sequence_def)

lemma record_fields_null:
  assumes x: "0 \<le> x" "x < 4294967296"
    and data: "data = pre @ be_bytes 4 (nat x) @ null_sequence @ post"
  shows "record_fields data (Suc n) (int (length pre)) =
           ((x, None) # fst (record_fields data n (int (length pre) + 8)),
            snd (record_fields data n (int (length pre) + 8)))"
proof -
  let ?tb = "be_bytes 4 (nat x)"
  have s1: "py_slice data i j = ?tb"
    if "i = int (length pre)" and "j = int (length pre) + 4" for i j
    unfolding that
    by (rule py_slice_at [where pre = pre and post = "null_sequence @ post"])
      (simp_all add: data)
  have s2: "py_slice data i j = null_sequence"
    if "i = int (length pre) + 4" and "j = int (length pre) + 8" for i j
    unfolding that
    by (rule py_slice_at [where pre = "pre @ ?tb" and post = post])
      (simp_all add: data length_null_sequence)
  have u: "ulong_unpack ?tb = Inr x"
    using ulong_unpack_be_bytes [OF x, of "[]"] by simp
  show ?thesis
    by (simp add: s1 s2 u Let_def ac_simps)
qed

lemma record_fields_payload:
  assumes x: "0 \<le> x" "x < 4294967296" and b: "length b < 2147483648"
    and data: "data = pre @ be_bytes 4 (nat x) @ be_bytes 4 (length b) @ b @ post"
  shows "record_fields data (Suc n) (int (length pre)) =
           ((x, Some b) # fst (record_fields data n (int (length pre) + 8 + int (length b))),
            snd (record_fields data n (int (length pre) + 8 + int (length b))))"
proof -
  let ?tb = "be_bytes 4 (nat x)" and ?lb = "be_bytes 4 (length b)"
  have s1: "py_slice data i j = ?tb"
    if "i = int (length pre)" and "j = int (length pre) + 4" for i j
    unfolding that
    by (rule py_slice_at [where pre = pre and post = "?lb @ b @ post"])
      (simp_all add: data)
  have s2: "py_slice data i j = ?lb"
    if "i = int (length pre) + 4" and "j = int (length pre) + 8" for i j
    unfolding that
    by (rule py_slice_at [where pre = "pre @ ?tb" and post = "b @ post"])
      (simp_all add: data)
  have s3: "py_slice data i j = b"
    if "i = int (length pre) + 8" and "j = int (length pre) + 8 + int (length b)" for i j
    unfolding that
    by (rule py_slice_at [where pre = "pre @ ?tb @ ?lb" and post = post])
      (simp_all add: data)
  have u: "ulong_unpack ?tb = Inr x"
    using ulong_unpack_be_bytes [OF x, of "[]"] by simp
  have n: "?lb \<noteq> null_sequence"
    using b by (rule be_bytes4_not_null)
  have "nat (int (length b) mod 4294967296) = length b"
    using b by simp
  with long_unpack_be_bytes [of "int (length b)" "[]"] b
  have l: "long_unpack ?lb = Inr (int (length b))"
    by simp
  show ?thesis
    by (simp add: s1 s2 s3 u n l Let_def ac_simps)
qed

lemma record_fields_step:
  assumes "field_pack f = Inr enc"
  shows "record_fields (pre @ enc @ post) (Suc n) (int (length pre)) =
           (f # fst (record_fields (pre @ enc @ post) n (int (length pre) + int (length enc))),
            snd (record_fields (pre @ enc @ post) n (int (length pre) + int (length enc))))"
proof (cases f)
  case (Pair x y)
  show ?thesis
  proof (cases y)
    case None
    with Pair assms have x: "0 \<le> x" "x < 4294967296"
      and enc: "enc = be_bytes 4 (nat x) @ null_sequence"
      by (simp_all add: field_pack_None)
    from record_fields_null [OF x, of "pre @ enc @ post" pre post n] Pair None
    show ?thesis
      by (simp add: enc length_null_sequence)
  next
    case (Some b)
    with Pair assms have x: "0 \<le> x" "x < 4294967296" and b: "length b < 2147483648"
      and enc: "enc = be_bytes 4 (nat x) @ be_bytes 4 (length b) @ b"
      by (simp_all add: field_pack_Some)
    from record_fields_payload [OF x b, of "pre @ enc @ post" pre post n] Pair Some
    show ?thesis
      by (simp add: enc add.assoc)
  qed
qed

lemma fields_pack_Cons:
  "fields_pack (f # fs) = Inr enc \<longleftrightarrow>
     (\<exists>e1 e2. field_pack f = Inr e1 \<and> fields_pack fs = Inr e2 \<and> enc = e1 @ e2)"
  by (auto simp add: bind_err_def split: sum.splits)

lemma record_fields_packed:
  assumes "fields_pack fs = Inr enc"
  shows "record_fields (pre @ enc @ post) (length fs + n) (int (length pre)) =
           (fs @ fst (record_fields (pre @ enc @ post) n (int (length pre) + int (length enc))),
            snd (record_fields (pre @ enc @ post) n (int (length pre) + int (length enc))))"
  using assms
proof (induction fs arbitrary: pre enc)
  case Nil
  then show ?case by simp
next
  case (Cons f fs)
  from fields_pack_Cons [THEN iffD1, OF Cons.prems]
  obtain e1 e2 where f: "field_pack f = Inr e1"
    and fs: "fields_pack fs = Inr e2" and enc: "enc = e1 @ e2"
    by blast
  from record_fields_step [OF f, of pre "e2 @ post" "length fs + n"]
       Cons.IH [OF fs, of "pre @ e1"]
  show ?case
    by (simp add: enc add.assoc)
qed

lemma fields_pack_total:
  assumes "\<forall>(t, p) \<in> set s. 0 \<le> t \<and> t < 2 ^ 32 \<and> (\<forall>b. p = Some b \<longrightarrow> length b < 2 ^ 31)"
  shows "\<exists>enc. fields_pack s = Inr enc"
  using assms
proof (induction s)
  case Nil
  show ?case by simp
next
  case (Cons f s)
  obtain t p where f: "f = (t, p)"
    by (cases f)
  from Cons.prems f have t: "0 \<le> t" "t < 4294967296"
    and p: "\<And>b. p = Some b \<Longrightarrow> length b < 2147483648"
    by simp_all
  have "\<exists>e1. field_pack f = Inr e1"
  proof (cases p)
    case None
    with t f show ?thesis by (simp add: field_pack_None)
  next
    case (Some b)
    with t f p [of b] show ?thesis by (simp add: field_pack_Some)
  qed
  moreover from Cons have "\<exists>e2. fields_pack s = Inr e2"
    by simp
  ultimately show ?case
    by (auto simp add: bind_err_def)
qed

lemma record_unpack_header:
  assumes h: "long_pack columns = Inr h"
  shows "record_unpack (h @ body) =
     (let r = record_fields (h @ body) (nat columns) 4 in
      case snd r of
        Inl e \<Rightarrow> (fst r, Some e)
      | Inr offset \<Rightarrow>
          if int (length (h @ body)) - offset \<noteq> 0
          then (fst r, Some (ValueError ''extra data, %d octets, at end of record''))
          else (fst r, None))"
proof -
  from h have l: "length h = 4" and u: "long_unpack h = Inr columns"
    by (rule long_pack_length)+
  have "py_slice (h @ body) 0 4 = h"
    by (rule py_slice_at [where pre = "[]" and post = body]) (simp_all add: l)
  with u show ?thesis
    by (simp add: record_unpack_def)
qed

lemma record_unpack_packed_prefix:
  assumes h: "long_pack columns = Inr h" and enc: "fields_pack fs = Inr enc"
    and n: "nat columns = length fs + n"
  shows "record_fields (h @ enc @ post) (nat columns) 4 =
           (fs @ fst (record_fields (h @ enc @ post) n (4 + int (length enc))),
            snd (record_fields (h @ enc @ post) n (4 + int (length enc))))"
proof -
  from h have l: "length h = 4"
    by (rule long_pack_length)
  from record_fields_packed [OF enc, of h post n] show ?thesis
    by (simp add: l n)
qed

lemma record_unpack_extra:
  assumes h: "long_pack columns = Inr h" and enc: "fields_pack fs = Inr enc"
    and n: "nat columns = length fs" and x: "extra \<noteq> []"
  shows "record_unpack (h @ enc @ extra) =
           (fs, Some (ValueError ''extra data, %d octets, at end of record''))"
proof -
  from h have l: "length h = 4"
    by (rule long_pack_length)
  from n have "nat columns = length fs + 0"
    by simp
  from record_unpack_packed_prefix [OF h enc this, of extra]
  have "record_fields (h @ enc @ extra) (nat columns) 4 = (fs, Inr (4 + int (length enc)))"
    by simp
  with x show ?thesis
    by (simp add: record_unpack_header [OF h] l)
qed

lemma record_unpack_exact:
  assumes h: "long_pack columns = Inr h" and enc: "fields_pack fs = Inr enc"
    and n: "nat columns = length fs"
  shows "record_unpack (h @ enc) = (fs, None)"
proof -
  from h have l: "length h = 4"
    by (rule long_pack_length)
  from n have "nat columns = length fs + 0"
    by simp
  from record_unpack_packed_prefix [OF h enc this, of "[]"]
  have "record_fields (h @ enc) (nat columns) 4 = (fs, Inr (4 + int (length enc)))"
    by simp
  then show ?thesis
    using record_unpack_header [OF h, of enc] by (simp add: l)
qed

lemma record_fields_insufficient:
  assumes tb: "length tb = 4" and sb: "long_pack size' = Inr sb"
    and short: "int (length rest) < size'"
    and data: "data = pre @ tb @ sb @ rest"
  shows "record_fields data (Suc n) (int (length pre)) =
           ([], Inl (ValueError ''insufficient data left in message''))"
proof -
  from sb have l: "length sb = 4" and u: "long_unpack sb = Inr size'"
    by (rule long_pack_length)+
  have s1: "py_slice data i j = tb"
    if "i = int (length pre)" and "j = int (length pre) + 4" for i j
    unfolding that
    by (rule py_slice_at [where pre = pre and post = "sb @ rest"]) (simp_all add: data tb)
  have s2: "py_slice data i j = sb"
    if "i = int (length pre) + 4" and "j = int (length pre) + 8" for i j
    unfolding that
    by (rule py_slice_at [where pre = "pre @ tb" and post = rest]) (simp_all add: data tb l)
  have "py_slice data (int (length (pre @ tb @ sb))) (int (length (pre @ tb @ sb)) + int (nat size'))
          = take (nat size') rest"
    unfolding data using py_slice_short [of "pre @ tb @ sb" rest "nat size'"] by simp
  moreover have "take (nat size') rest = rest"
    using short by simp
  moreover have "0 \<le> size'"
    using short by simp
  ultimately have s3: "py_slice data i j = rest"
    if "i = int (length pre) + 8" and "j = int (length pre) + 8 + size'" for i j
    unfolding that by (simp add: tb l ac_simps)
  have nn: "sb \<noteq> null_sequence"
  proof
    assume "sb = null_sequence"
    with u have "long_unpack null_sequence = Inr size'"
      by simp
    then have "size' = - 1"
      by (simp add: long_unpack_def null_sequence_def be_val_def signed_of_def)
    with short show False
      by simp
  qed
  have ul: "\<exists>t. ulong_unpack tb = Inr t"
    by (simp add: ulong_unpack_def tb)
  then obtain t where t: "ulong_unpack tb = Inr t" ..
  from short show ?thesis
    by (simp add: s1 s2 s3 t nn u Let_def ac_simps)
qed

lemma record_unpack_insufficient:
  assumes h: "long_pack columns = Inr h" and enc: "fields_pack fs = Inr enc"
    and n: "int (length fs) < columns"
    and tb: "length tb = 4" and sb: "long_pack size' = Inr sb"
    and short: "int (length rest) < size'"
  shows "record_unpack (h @ enc @ tb @ sb @ rest) =
           (fs, Some (ValueError ''insufficient data left in message''))"
proof -
  from h have l: "length h = 4"
    by (rule long_pack_length)
  from n have "length fs < nat columns"
    by linarith
  then obtain k where "nat columns = Suc (length fs + k)"
    by (auto dest: less_imp_Suc_add)
  then have k: "nat columns = length fs + Suc k"
    by simp
  have "record_fields (h @ enc @ tb @ sb @ rest) (Suc k) (int (length (h @ enc))) =
          ([], Inl (ValueError ''insufficient data left in message''))"
    by (rule record_fields_insufficient [OF tb sb short]) simp
  with record_unpack_packed_prefix [OF h enc k, of "tb @ sb @ rest"]
  have "record_fields (h @ enc @ tb @ sb @ rest) (nat columns) 4 =
          (fs, Inl (ValueError ''insufficient data left in message''))"
    by (simp add: l)
  then show ?thesis
    by (simp add: record_unpack_header [OF h])
qed

text \<open>
  C1: the claim is the round trip for every finite sequence of pairs.  The field count
  is written with \<open>long_pack\<close>, so a sequence of \<open>2 ^ 31\<close> pairs cannot be packed:
  \<open>record_pack\<close> raises \<open>struct.error\<close>.
\<close>

theorem record_roundtrip_counterexample:
  "record_pack (replicate (2 ^ 31) (0, None)) = Inl StructError"
  by (simp add: record_pack_def long_pack_def bind_err_def)

text \<open>
  C1, as amended: for every sequence \<open>s\<close> of fewer than \<open>2 ^ 31\<close> pairs \<open>(t, p)\<close>,
  with \<open>t\<close> an unsigned 32-bit integer and \<open>p\<close> either \<open>None\<close> or a byte string
  of fewer than \<open>2 ^ 31\<close> bytes, \<open>record_pack\<close> succeeds, and consuming
  \<open>record_unpack\<close> of its result yields exactly the pairs of \<open>s\<close>, in order, with no
  exception.
\<close>

theorem record_roundtrip:
  assumes "length s < 2 ^ 31"
    and "\<forall>(t, p) \<in> set s. 0 \<le> t \<and> t < 2 ^ 32 \<and> (\<forall>b. p = Some b \<longrightarrow> length b < 2 ^ 31)"
  shows "bind_err (record_pack s) (\<lambda>data. consume (record_unpack data)) = Inr s"
proof -
  from assms(2) obtain enc where enc: "fields_pack s = Inr enc"
    using fields_pack_total by blast
  from assms(1) have "\<exists>h. long_pack (int (length s)) = Inr h"
    by (simp add: long_pack_def)
  then obtain h where h: "long_pack (int (length s)) = Inr h" ..
  have "record_unpack (h @ enc) = (s, None)"
    by (rule record_unpack_exact [OF h enc]) simp
  with h enc show ?thesis
    by (simp add: record_pack_def bind_err_def consume_def)
qed

theorem record_roundtrip_witness:
  "length [(23 :: int, Some [1, 2 :: byte]), (25, None)] < 2 ^ 31 \<and>
   record_pack [(23, Some [1, 2]), (25, None)] =
     Inr [0, 0, 0, 2, 0, 0, 0, 23, 0, 0, 0, 2, 1, 2, 0, 0, 0, 25, 255, 255, 255, 255] \<and>
   bind_err (record_pack [(23, Some [1, 2]), (25, None)])
     (\<lambda>data. consume (record_unpack data)) = Inr [(23, Some [1, 2]), (25, None)]"
proof -
  have p: "record_pack [(23, Some [1, 2]), (25, None)] =
     Inr [0, 0, 0, 2, 0, 0, 0, 23, 0, 0, 0, 2, 1, 2, 0, 0, 0, 25, 255, 255, 255, 255]"
    by (simp add: record_pack_def field_pack_def long_pack_def ulong_pack_def bind_err_def
        null_sequence_def be_bytes_numeral)
  show ?thesis
    using p record_roundtrip [of "[(23, Some [1, 2]), (25, None)]"]
    by simp
qed

text \<open>
  C5: consuming \<open>record_unpack\<close> raises when a field reached after well-formed fields
  declares a payload length larger than the number of bytes left after its length
  prefix, and raises when bytes are left after the declared number of fields.  The
  well-formed fields are those \<open>fields_pack\<close> writes.
\<close>

theorem record_unpack_rejects:
  "(fields_pack fs = Inr enc \<and> long_pack columns = Inr h \<and> int (length fs) < columns \<and>
    length tb = 4 \<and> long_pack size' = Inr sb \<and> int (length rest) < size' \<longrightarrow>
      consume (record_unpack (h @ enc @ tb @ sb @ rest)) =
        Inl (ValueError ''insufficient data left in message'')) \<and>
   (fields_pack fs = Inr enc \<and> long_pack columns = Inr h \<and> nat columns = length fs \<and>
    extra \<noteq> [] \<longrightarrow>
      consume (record_unpack (h @ enc @ extra)) =
        Inl (ValueError ''extra data, %d octets, at end of record''))"
proof (intro conjI impI)
  assume "fields_pack fs = Inr enc \<and> long_pack columns = Inr h \<and> int (length fs) < columns \<and>
    length tb = 4 \<and> long_pack size' = Inr sb \<and> int (length rest) < size'"
  then have "record_unpack (h @ enc @ tb @ sb @ rest) =
      (fs, Some (ValueError ''insufficient data left in message''))"
    by (intro record_unpack_insufficient [where columns = columns and size' = size']) simp_all
  then show "consume (record_unpack (h @ enc @ tb @ sb @ rest)) =
      Inl (ValueError ''insufficient data left in message'')"
    by (simp add: consume_def)
next
  assume "fields_pack fs = Inr enc \<and> long_pack columns = Inr h \<and> nat columns = length fs \<and>
    extra \<noteq> []"
  then have "record_unpack (h @ enc @ extra) =
      (fs, Some (ValueError ''extra data, %d octets, at end of record''))"
    by (intro record_unpack_extra [where columns = columns]) simp_all
  then show "consume (record_unpack (h @ enc @ extra)) =
      Inl (ValueError ''extra data, %d octets, at end of record'')"
    by (simp add: consume_def)
qed

theorem record_unpack_rejects_witness:
  "fields_pack [(23, Some [1, 2])] = Inr [0, 0, 0, 23, 0, 0, 0, 2, 1, 2] \<and>
   long_pack 2 = Inr [0, 0, 0, 2] \<and> long_pack 1 = Inr [0, 0, 0, 1] \<and>
   long_pack 3 = Inr [0, 0, 0, 3] \<and>
   consume (record_unpack ([0, 0, 0, 2] @ [0, 0, 0, 23, 0, 0, 0, 2, 1, 2] @
      [0, 0, 0, 25] @ [0, 0, 0, 3] @ [7, 7])) =
     Inl (ValueError ''insufficient data left in message'') \<and>
   consume (record_unpack ([0, 0, 0, 1] @ [0, 0, 0, 23, 0, 0, 0, 2, 1, 2] @ [9])) =
     Inl (ValueError ''extra data, %d octets, at end of record'')"
proof -
  have f: "fields_pack [(23, Some [1, 2])] = Inr [0, 0, 0, 23, 0, 0, 0, 2, 1, 2]"
    by (simp add: field_pack_def long_pack_def ulong_pack_def bind_err_def be_bytes_numeral)
  have l: "long_pack 2 = Inr [0, 0, 0, 2]" "long_pack 1 = Inr [0, 0, 0, 1]"
    "long_pack 3 = Inr [0, 0, 0, 3]"
    by (simp_all add: long_pack_def be_bytes_numeral)
  show ?thesis
    using f l
      record_unpack_rejects [of "[(23, Some [1, 2])]" "[0, 0, 0, 23, 0, 0, 0, 2, 1, 2]"
        2 "[0, 0, 0, 2]" "[0, 0, 0, 25]" 3 "[0, 0, 0, 3]" "[7, 7]" "[]"]
      record_unpack_rejects [of "[(23, Some [1, 2])]" "[0, 0, 0, 23, 0, 0, 0, 2, 1, 2]"
        1 "[0, 0, 0, 1]" "[]" 0 "[]" "[]" "[9]"]
    by simp
qed

section \<open>Properties of the float model\<close>

subsection \<open>Powers of two and the binary logarithm\<close>












subsection \<open>Rounding to an integer\<close>





subsection \<open>The fields of a rounded double\<close>




subsection \<open>The value and the error of \<open>d_round\<close>\<close>














subsection \<open>The operations on finite doubles\<close>






section \<open>Properties of the interval codec without days\<close>

subsection \<open>The time of a pair of seconds and microseconds\<close>












subsection \<open>Packing and unpacking\<close>













end
